theory Spec2Isabelle
  imports Main "HOL-Library.Sublist"
begin

section \<open>Python strings\<close>

text \<open>
  A Python \<open>str\<close> is the sequence of its code points; a code point is a natural
  number, so \<open>length\<close>, slicing and \<open>in\<close> count and compare what Python counts and
  compares. \<open>lit\<close> gives the \<open>str\<close> of a literal of the source or of an example: the
  code points of its characters.
\<close>

type_synonym str = "nat list"

definition lit :: "string \<Rightarrow> str" where
  "lit s = map of_char s"

text \<open>
  \<open>str.isspace\<close> on one code point, over all of Unicode: the characters that
  \<open>str.strip()\<close> removes from both ends.
\<close>

definition isspace :: "nat \<Rightarrow> bool" where
  "isspace c =
     (c \<in> {9, 10, 11, 12, 13, 28, 29, 30, 31, 32, 133, 160, 5760, 8232, 8233, 8239, 8287, 12288}
      \<or> (8192 \<le> c \<and> c \<le> 8202))"

definition strip :: "str \<Rightarrow> str" where
  "strip s = rev (dropWhile isspace (rev (dropWhile isspace s)))"

text \<open>\<open>x in s\<close> on strings: \<open>x\<close> occurs in \<open>s\<close> as a contiguous run.\<close>

fun py_in :: "str \<Rightarrow> str \<Rightarrow> bool" where
  "py_in x [] = (x = [])"
| "py_in x (c # cs) = (prefix x (c # cs) \<or> py_in x cs)"

text \<open>The decimal text of an integer, as an f-string formats \<open>page_num\<close>.\<close>

definition digit_char :: "nat \<Rightarrow> nat" where
  "digit_char d = 48 + d"

fun str_nat :: "nat \<Rightarrow> str" where
  "str_nat n = (if n < 10 then [digit_char n] else str_nat (n div 10) @ [digit_char (n mod 10)])"

declare str_nat.simps [simp del]

definition str_int :: "int \<Rightarrow> str" where
  "str_int i = (if i < 0 then 45 # str_nat (nat (- i)) else str_nat (nat i))"

section \<open>The environment: files, the network, the log\<close>

text \<open>
  The handlers of the source tell two classes of exception apart: those of
  \<open>requests.exceptions.RequestException\<close> (line 77) and every other \<open>Exception\<close>
  (line 104).
\<close>

datatype exn = RequestException | OtherException

record response =
  status_code :: nat
  content :: str

text \<open>
  What a path holds when \<open>read_iocs_from_file\<close> looks at it: nothing
  (\<open>os.path.exists\<close> is false), something that \<open>open\<close> or the decoding of its bytes
  fails on, or a text.
\<close>

datatype file_state = NoFile | Unreadable | Text str

text \<open>One constructor for each logging call of the source.\<close>

datatype log_entry =
    IOC_file_not_found str
  | Error_reading_IOC_file
  | Scraping_URL str
  | Error_fetching_URL str
  | General_scraping_error str
  | Results_saved_to str
  | Error_saving_results

text \<open>
  The libraries are parameters. \<open>requests_get n u\<close> is what \<open>requests.get(u, timeout=10)\<close>
  does when it is the request number \<open>n\<close> of the run (counted from 0): the network may
  answer the same URL differently at different times. \<open>get_text\<close> is
  \<open>BeautifulSoup(content, 'html.parser').get_text()\<close>. \<open>lower\<close> is \<open>str.lower\<close>, the
  lower-casing of Unicode, which is not a map over the code points (it looks at the
  context of a capital sigma and can change the length): nothing is assumed of it but
  what a theorem states. \<open>writable\<close> tells whether \<open>DataFrame.to_csv\<close> can write to
  a path.
\<close>

record env =
  requests_get :: "nat \<Rightarrow> str \<Rightarrow> exn + response"
  get_text :: "str \<Rightarrow> str"
  lower :: "str \<Rightarrow> str"
  writable :: "str \<Rightarrow> bool"

text \<open>
  The state the program changes: the file system, the GET requests issued so far (in
  order) and the log.
\<close>

record world =
  files :: "str \<Rightarrow> file_state"
  gets :: "str list"
  log :: "log_entry list"

section \<open>The IOC loader\<close>

text \<open>
  Iterating over a file opened in text mode yields its lines; with universal newlines a
  line ends at \<open>\n\<close>, at \<open>\r\<close> or at \<open>\r\n\<close>. The terminator is white space, which
  \<open>strip\<close> removes, so the lines are kept without it. \<open>cur\<close> is the line read so far.
\<close>

fun readlines :: "str \<Rightarrow> str \<Rightarrow> str list" where
  "readlines cur [] = (if cur = [] then [] else [cur])"
| "readlines cur (c # cs) =
     (if c = 10 then cur # readlines [] cs
      else if c = 13 then
        (case cs of
           d # ds \<Rightarrow> if d = 10 then cur # readlines [] ds else cur # readlines [] cs
         | [] \<Rightarrow> cur # readlines [] cs)
      else readlines (cur @ [c]) cs)"

definition read_iocs_from_file :: "str \<Rightarrow> world \<Rightarrow> str list \<times> world" where
  "read_iocs_from_file ioc_file_path w =
     (case files w ioc_file_path of
        NoFile \<Rightarrow> ([], w\<lparr>log := log w @ [IOC_file_not_found ioc_file_path]\<rparr>)
      | Unreadable \<Rightarrow> ([], w\<lparr>log := log w @ [Error_reading_IOC_file]\<rparr>)
      | Text s \<Rightarrow> (map strip (filter (\<lambda>line. strip line \<noteq> []) (readlines [] s)), w))"

section \<open>Matching one page\<close>

record match =
  url :: str
  keyword :: "str option"
  ioc :: "str option"
  context' :: str

text \<open>Lines 85 to 93: the loop over the keywords, appending to \<open>results\<close>.\<close>

fun keyword_loop ::
  "env \<Rightarrow> str \<Rightarrow> str \<Rightarrow> str list \<Rightarrow> match list \<Rightarrow> match list" where
  "keyword_loop e current_url text_content [] results = results"
| "keyword_loop e current_url text_content (k # ks) results =
     (let kw = lower e k in
      keyword_loop e current_url text_content ks
        (if py_in kw (lower e text_content)
         then results @ [\<lparr>url = current_url, keyword = Some kw, ioc = None,
                           context' = take 500 text_content\<rparr>]
         else results))"

text \<open>Lines 96 to 103: the loop over the IOCs.\<close>

fun ioc_loop :: "str \<Rightarrow> str \<Rightarrow> str list \<Rightarrow> match list \<Rightarrow> match list" where
  "ioc_loop current_url text_content [] results = results"
| "ioc_loop current_url text_content (i # is) results =
     ioc_loop current_url text_content is
       (if py_in i text_content
        then results @ [\<lparr>url = current_url, keyword = None, ioc = Some i,
                          context' = take 500 text_content\<rparr>]
        else results)"

text \<open>Lines 84 to 103: what one fetched page adds to \<open>results\<close>.\<close>

definition match_page ::
  "env \<Rightarrow> str \<Rightarrow> str \<Rightarrow> str list \<Rightarrow> str list \<Rightarrow> match list \<Rightarrow> match list" where
  "match_page e current_url text_content kws iocs results =
     (let results1 = (if kws \<noteq> [] then keyword_loop e current_url text_content kws results
                      else results)
      in if iocs \<noteq> [] then ioc_loop current_url text_content iocs results1 else results1)"

section \<open>Pagination and fetching\<close>

text \<open>Lines 65 to 71: the URL of page \<open>page_num\<close>.\<close>

definition page_url :: "str \<Rightarrow> int \<Rightarrow> str" where
  "page_url u page_num =
     (if page_num > 1
      then (if 63 \<in> set u then u @ (lit ''&page='') @ str_int page_num
            else u @ (lit ''?page='') @ str_int page_num)
      else u)"

text \<open>
  \<open>Response.raise_for_status\<close> raises \<open>HTTPError\<close>, a \<open>RequestException\<close>, for the
  status codes 400 to 599 (the comment of line 76: bad responses, 4xx or 5xx).
\<close>

definition raise_for_status :: "response \<Rightarrow> exn + unit" where
  "raise_for_status r =
     (if 400 \<le> status_code r \<and> status_code r < 600 then Inl RequestException else Inr ())"

text \<open>Lines 75 and 76, the body of the inner \<open>try\<close>.\<close>

definition fetch :: "env \<Rightarrow> nat \<Rightarrow> str \<Rightarrow> exn + response" where
  "fetch e n current_url =
     (case requests_get e n current_url of
        Inl x \<Rightarrow> Inl x
      | Inr r \<Rightarrow> (case raise_for_status r of Inl x \<Rightarrow> Inl x | Inr _ \<Rightarrow> Inr r))"

text \<open>
  Lines 64 to 105: the loop over the page numbers. A \<open>RequestException\<close> is logged and
  the loop goes on with the next page (\<open>continue\<close>); any other exception leaves the loop
  for the handler of line 104, which logs it; \<open>results\<close> is returned as it stands.
\<close>

fun scrape_pages ::
  "env \<Rightarrow> str \<Rightarrow> str list \<Rightarrow> str list \<Rightarrow> int list \<Rightarrow> match list \<times> world
     \<Rightarrow> match list \<times> world" where
  "scrape_pages e u kws iocs [] (results, w) = (results, w)"
| "scrape_pages e u kws iocs (page_num # rest) (results, w) =
     (let current_url = page_url u page_num;
          w1 = w\<lparr>log := log w @ [Scraping_URL current_url]\<rparr>;
          w2 = w1\<lparr>gets := gets w1 @ [current_url]\<rparr>
      in case fetch e (length (gets w1)) current_url of
           Inl RequestException \<Rightarrow>
             scrape_pages e u kws iocs rest
               (results, w2\<lparr>log := log w2 @ [Error_fetching_URL current_url]\<rparr>)
         | Inl OtherException \<Rightarrow>
             (results, w2\<lparr>log := log w2 @ [General_scraping_error u]\<rparr>)
         | Inr r \<Rightarrow>
             scrape_pages e u kws iocs rest
               (match_page e current_url (get_text e (content r)) kws iocs results, w2))"

definition scrape_url ::
  "env \<Rightarrow> str \<Rightarrow> str list \<Rightarrow> str list \<Rightarrow> int \<Rightarrow> world \<Rightarrow> match list \<times> world" where
  "scrape_url e u kws iocs max_pages w = scrape_pages e u kws iocs [1..max_pages] ([], w)"

section \<open>The run\<close>

text \<open>The namespace that \<open>parse_args\<close> returns (lines 20 to 24).\<close>

record args =
  keywords' :: "str list option"
  ioc_file :: "str option"
  urls :: "str list"
  output' :: str
  max_pages :: int

text \<open>Lines 137 to 139: the loop over the target URLs, extending \<open>all_results\<close>.\<close>

fun scrape_targets ::
  "env \<Rightarrow> str list \<Rightarrow> str list \<Rightarrow> int \<Rightarrow> str list \<Rightarrow> match list \<times> world
     \<Rightarrow> match list \<times> world" where
  "scrape_targets e kws iocs mp [] (all_results, w) = (all_results, w)"
| "scrape_targets e kws iocs mp (u # us) (all_results, w) =
     (case scrape_url e u kws iocs mp w of
        (results, w') \<Rightarrow> scrape_targets e kws iocs mp us (all_results @ results, w'))"

text \<open>Line 132: the keywords of the run.\<close>

definition main_keywords :: "args \<Rightarrow> str list" where
  "main_keywords a = (case keywords' a of None \<Rightarrow> [] | Some ks \<Rightarrow> if ks = [] then [] else ks)"

text \<open>Lines 133 to 135: the IOCs of the run; a missing or empty path loads nothing.\<close>

definition main_iocs :: "args \<Rightarrow> world \<Rightarrow> str list \<times> world" where
  "main_iocs a w =
     (case ioc_file a of
        None \<Rightarrow> ([], w)
      | Some p \<Rightarrow> if p = [] then ([], w) else read_iocs_from_file p w)"

text \<open>Lines 132 to 139 of \<open>main\<close>: everything before the results are written.\<close>

definition all_results :: "env \<Rightarrow> args \<Rightarrow> world \<Rightarrow> match list \<times> world" where
  "all_results e a w =
     (case main_iocs a w of
        (iocs, w1) \<Rightarrow> scrape_targets e (main_keywords a) iocs (max_pages a) (urls a) ([], w1))"

section \<open>The result writer\<close>

text \<open>
  Each result is a dict with the keys \<open>url\<close>, \<open>keyword\<close>, \<open>ioc\<close> and \<open>context\<close>, in
  this order (lines 88 to 93 and 98 to 103); \<open>None\<close> is the value of an absent field.
\<close>

definition items :: "match \<Rightarrow> (str \<times> str option) list" where
  "items r = [(lit ''url'', Some (url r)), (lit ''keyword'', keyword r), (lit ''ioc'', ioc r),
              (lit ''context'', Some (context' r))]"

text \<open>
  \<open>pandas.DataFrame(results)\<close> on a list of dicts: the columns are the keys of the
  dicts in the order of their first appearance, and a row has a cell for every column. A
  list with no dict gives a frame with no column.
\<close>

record frame =
  columns :: "str list"
  data :: "str option list list"

fun add_keys :: "str list \<Rightarrow> str list \<Rightarrow> str list" where
  "add_keys cols [] = cols"
| "add_keys cols (k # ks) = add_keys (if k \<in> set cols then cols else cols @ [k]) ks"

definition DataFrame :: "match list \<Rightarrow> frame" where
  "DataFrame results =
     (let cols = foldl add_keys [] (map (\<lambda>r. map fst (items r)) results)
      in \<lparr>columns = cols,
          data = map (\<lambda>r. map (\<lambda>c. case map_of (items r) c of None \<Rightarrow> None | Some v \<Rightarrow> v) cols)
                   results\<rparr>)"

text \<open>
  \<open>to_csv(output_file, index=False)\<close>: the header row, then one row for each row of the
  frame, a missing value written as the empty string. The rows go through \<open>csv.writer\<close>
  with its default dialect: a field holding a comma, a double quote or a line break is
  put in double quotes with its double quotes doubled, and a row of one empty field is
  written as two double quotes.
\<close>

definition na_rep :: "str option \<Rightarrow> str" where
  "na_rep v = (case v of None \<Rightarrow> [] | Some s \<Rightarrow> s)"

definition csv_rows :: "frame \<Rightarrow> str list list" where
  "csv_rows f = columns f # map (map na_rep) (data f)"

definition csv_field :: "str \<Rightarrow> str" where
  "csv_field s =
     (if \<exists>c \<in> set s. c \<in> {44, 34, 10, 13}
      then [34] @ concat (map (\<lambda>c. if c = 34 then [c, c] else [c]) s) @ [34]
      else s)"

fun join :: "str \<Rightarrow> str list \<Rightarrow> str" where
  "join sep [] = []"
| "join sep [x] = x"
| "join sep (x # y # ys) = x @ sep @ join sep (y # ys)"

definition writerow :: "str list \<Rightarrow> str" where
  "writerow row =
     (if row = [[]] then [34, 34] else join (lit '','') (map csv_field row)) @ [10]"

definition to_csv :: "frame \<Rightarrow> str" where
  "to_csv f = concat (map writerow (csv_rows f))"

text \<open>Lines 117 to 122.\<close>

definition save_results_to_csv :: "env \<Rightarrow> match list \<Rightarrow> str \<Rightarrow> world \<Rightarrow> world" where
  "save_results_to_csv e results output_file w =
     (if writable e output_file
      then w\<lparr>files := (files w)(output_file := Text (to_csv (DataFrame results))),
             log := log w @ [Results_saved_to output_file]\<rparr>
      else w\<lparr>log := log w @ [Error_saving_results]\<rparr>)"

definition main :: "env \<Rightarrow> args \<Rightarrow> world \<Rightarrow> world" where
  "main e a w =
     (case all_results e a w of (results, w') \<Rightarrow> save_results_to_csv e results (output' a) w')"

section \<open>The records of a page and of a request, written out\<close>

text \<open>
  The records the keywords add for one page, without the accumulator: one for each entry
  of the keyword list whose lower-case form occurs in the lower-case text, in list
  order. Likewise for the IOCs, compared as they are.
\<close>

definition keyword_records :: "env \<Rightarrow> str \<Rightarrow> str \<Rightarrow> str list \<Rightarrow> match list" where
  "keyword_records e u t kws =
     map (\<lambda>k. \<lparr>url = u, keyword = Some (lower e k), ioc = None, context' = take 500 t\<rparr>)
       (filter (\<lambda>k. py_in (lower e k) (lower e t)) kws)"

definition ioc_records :: "str \<Rightarrow> str \<Rightarrow> str list \<Rightarrow> match list" where
  "ioc_records u t iocs =
     map (\<lambda>i. \<lparr>url = u, keyword = None, ioc = Some i, context' = take 500 t\<rparr>)
       (filter (\<lambda>i. py_in i t) iocs)"

text \<open>
  What request number \<open>i\<close> of a run contributes, \<open>gs\<close> being the requests of the run:
  nothing when the fetch failed, the matches of the page when it succeeded.
\<close>

definition attempt_records ::
  "env \<Rightarrow> str list \<Rightarrow> str list \<Rightarrow> str list \<Rightarrow> nat \<Rightarrow> match list" where
  "attempt_records e kws iocs gs i =
     (case fetch e i (gs ! i) of
        Inl x \<Rightarrow> []
      | Inr r \<Rightarrow> match_page e (gs ! i) (get_text e (content r)) kws iocs [])"

section \<open>Strings and the matcher\<close>

lemma py_in_sublist: "py_in x s = sublist x s"
  by (induction s) (cases x; auto simp: sublist_Cons_right)+

lemma py_in_iff: "py_in x s \<longleftrightarrow> (\<exists>p q. s = p @ x @ q)"
  by (simp add: py_in_sublist sublist_def)

lemma keyword_loop_eq: "keyword_loop e u t ks res = res @ keyword_records e u t ks"
  by (induction ks arbitrary: res) (simp_all add: keyword_records_def Let_def)

lemma ioc_loop_eq: "ioc_loop u t is res = res @ ioc_records u t is"
  by (induction "is" arbitrary: res) (simp_all add: ioc_records_def)

lemma match_page_eq:
  "match_page e u t kws iocs res = res @ keyword_records e u t kws @ ioc_records u t iocs"
  by (simp add: match_page_def Let_def keyword_loop_eq ioc_loop_eq keyword_records_def
      ioc_records_def)

section \<open>The page loop\<close>

lemma scrape_pages_request_error:
  "fetch e (length (gets w)) (page_url u p) = Inl RequestException \<Longrightarrow>
   scrape_pages e u kws iocs (p # ps) (res, w) =
   scrape_pages e u kws iocs ps
     (res, w\<lparr>gets := gets w @ [page_url u p],
             log := log w @ [Scraping_URL (page_url u p), Error_fetching_URL (page_url u p)]\<rparr>)"
  by (simp add: Let_def)

lemma scrape_pages_other_error:
  "fetch e (length (gets w)) (page_url u p) = Inl OtherException \<Longrightarrow>
   scrape_pages e u kws iocs (p # ps) (res, w) =
     (res, w\<lparr>gets := gets w @ [page_url u p],
             log := log w @ [Scraping_URL (page_url u p), General_scraping_error u]\<rparr>)"
  by (simp add: Let_def)

lemma scrape_pages_fetched:
  "fetch e (length (gets w)) (page_url u p) = Inr r \<Longrightarrow>
   scrape_pages e u kws iocs (p # ps) (res, w) =
   scrape_pages e u kws iocs ps
     (match_page e (page_url u p) (get_text e (content r)) kws iocs res,
      w\<lparr>log := log w @ [Scraping_URL (page_url u p)], gets := gets w @ [page_url u p]\<rparr>)"
  by (simp add: Let_def)

declare scrape_pages.simps(2) [simp del]

lemma fetch_cases:
  obtains "fetch e n c = Inl RequestException" | "fetch e n c = Inl OtherException"
        | r where "fetch e n c = Inr r"
  by (cases "fetch e n c") (metis exn.exhaust, simp)

lemma scrape_pages_gets:
  "\<exists>m\<le>length ps. gets (snd (scrape_pages e u kws iocs ps (res, w))) =
       gets w @ map (page_url u) (take m ps)"
proof (induction ps arbitrary: res w)
  case Nil
  show ?case by simp
next
  case (Cons p ps)
  let ?c = "page_url u p"
  show ?case
  proof (cases rule: fetch_cases [of e "length (gets w)" ?c])
    case 1
    let ?w = "w\<lparr>gets := gets w @ [?c], log := log w @ [Scraping_URL ?c, Error_fetching_URL ?c]\<rparr>"
    obtain m where "m \<le> length ps"
      "gets (snd (scrape_pages e u kws iocs ps (res, ?w))) = gets ?w @ map (page_url u) (take m ps)"
      using Cons.IH [of res ?w] by blast
    then show ?thesis
      using 1 by (intro exI [of _ "Suc m"]) (simp add: scrape_pages_request_error)
  next
    case 2
    then show ?thesis
      by (intro exI [of _ "Suc 0"]) (simp add: scrape_pages_other_error)
  next
    case (3 r)
    let ?w = "w\<lparr>log := log w @ [Scraping_URL ?c], gets := gets w @ [?c]\<rparr>"
    let ?res = "match_page e ?c (get_text e (content r)) kws iocs res"
    obtain m where "m \<le> length ps"
      "gets (snd (scrape_pages e u kws iocs ps (?res, ?w))) = gets ?w @ map (page_url u) (take m ps)"
      using Cons.IH [of ?res ?w] by blast
    then show ?thesis
      using 3 by (intro exI [of _ "Suc m"]) (simp add: scrape_pages_fetched)
  qed
qed

lemma scrape_pages_gets_all:
  "(\<And>j. j < length ps \<Longrightarrow> fetch e (length (gets w) + j) (page_url u (ps ! j)) \<noteq> Inl OtherException)
   \<Longrightarrow> gets (snd (scrape_pages e u kws iocs ps (res, w))) = gets w @ map (page_url u) ps"
proof (induction ps arbitrary: res w)
  case Nil
  show ?case by simp
next
  case (Cons p ps)
  let ?c = "page_url u p"
  have rest: "fetch e (Suc (length (gets w)) + j) (page_url u (ps ! j)) \<noteq> Inl OtherException"
    if "j < length ps" for j
    using Cons.prems [of "Suc j"] that by simp
  have first: "fetch e (length (gets w)) ?c \<noteq> Inl OtherException"
    using Cons.prems [of 0] by simp
  show ?case
  proof (cases rule: fetch_cases [of e "length (gets w)" ?c])
    case 1
    then show ?thesis
      using Cons.IH [of "w\<lparr>gets := gets w @ [?c], log := log w @ [Scraping_URL ?c, Error_fetching_URL ?c]\<rparr>" res] rest
      by (simp add: scrape_pages_request_error)
  next
    case 2
    then show ?thesis using first by simp
  next
    case (3 r)
    then show ?thesis
      using Cons.IH [of "w\<lparr>log := log w @ [Scraping_URL ?c], gets := gets w @ [?c]\<rparr>"
          "match_page e ?c (get_text e (content r)) kws iocs res"] rest
      by (simp add: scrape_pages_fetched)
  qed
qed

lemma scrape_pages_files:
  "files (snd (scrape_pages e u kws iocs ps (res, w))) = files w"
proof (induction ps arbitrary: res w)
  case Nil
  show ?case by simp
next
  case (Cons p ps)
  show ?case
    by (cases rule: fetch_cases [of e "length (gets w)" "page_url u p"])
      (simp_all add: scrape_pages_request_error scrape_pages_other_error scrape_pages_fetched Cons.IH)
qed

lemma attempt_records_append:
  "i < length gs \<Longrightarrow> attempt_records e kws iocs (gs @ hs) i = attempt_records e kws iocs gs i"
  by (simp add: attempt_records_def nth_append split: sum.splits)

lemma scrape_pages_results:
  "fst (scrape_pages e u kws iocs ps (res, w)) =
     res @ concat (map (attempt_records e kws iocs (gets (snd (scrape_pages e u kws iocs ps (res, w)))))
                     [length (gets w)..<length (gets (snd (scrape_pages e u kws iocs ps (res, w))))])"
proof (induction ps arbitrary: res w)
  case Nil
  show ?case by simp
next
  case (Cons p ps)
  let ?c = "page_url u p"
  let ?n = "length (gets w)"
  let ?fin = "scrape_pages e u kws iocs (p # ps) (res, w)"
  have split: "[?n..<length (gets w @ ?c # xs)] = ?n # [Suc ?n..<length (gets w @ ?c # xs)]" for xs
    by (rule upt_conv_Cons) simp
  show ?case
  proof (cases rule: fetch_cases [of e ?n ?c])
    case 1
    let ?w = "w\<lparr>gets := gets w @ [?c], log := log w @ [Scraping_URL ?c, Error_fetching_URL ?c]\<rparr>"
    obtain m where g: "gets (snd (scrape_pages e u kws iocs ps (res, ?w))) = gets ?w @ map (page_url u) (take m ps)"
      using scrape_pages_gets [of ps e u kws iocs res ?w] by blast
    have eq: "?fin = scrape_pages e u kws iocs ps (res, ?w)"
      using 1 by (simp add: scrape_pages_request_error)
    have here: "attempt_records e kws iocs (gets (snd ?fin)) ?n = []"
      using 1 by (simp add: eq g attempt_records_def nth_append)
    show ?thesis
      using Cons.IH [of res ?w] here unfolding eq using g split [of "map (page_url u) (take m ps)"]
      by simp
  next
    case 2
    then show ?thesis
      by (simp add: scrape_pages_other_error attempt_records_def)
  next
    case (3 r)
    let ?w = "w\<lparr>log := log w @ [Scraping_URL ?c], gets := gets w @ [?c]\<rparr>"
    let ?res = "match_page e ?c (get_text e (content r)) kws iocs res"
    obtain m where g: "gets (snd (scrape_pages e u kws iocs ps (?res, ?w))) = gets ?w @ map (page_url u) (take m ps)"
      using scrape_pages_gets [of ps e u kws iocs ?res ?w] by blast
    have eq: "?fin = scrape_pages e u kws iocs ps (?res, ?w)"
      using 3 by (simp add: scrape_pages_fetched)
    have here: "attempt_records e kws iocs (gets (snd ?fin)) ?n = match_page e ?c (get_text e (content r)) kws iocs []"
      using 3 by (simp add: eq g attempt_records_def nth_append)
    have m: "?res = res @ match_page e ?c (get_text e (content r)) kws iocs []"
      by (simp add: match_page_eq)
    show ?thesis
      using Cons.IH [of ?res ?w] here m unfolding eq using g split [of "map (page_url u) (take m ps)"]
      by simp
  qed
qed

section \<open>The matcher: claims C1, C2 and C9\<close>



lemma filter_keyword_ioc_records:
  "filter (\<lambda>r. keyword r = Some k) (ioc_records u t iocs) = []"
  by (simp add: ioc_records_def filter_map comp_def)

lemma filter_keyword_keyword_records:
  "py_in (lower e kw) (lower e t) \<Longrightarrow>
   filter (\<lambda>r. keyword r = Some (lower e kw)) (keyword_records e u t kws) =
     map (\<lambda>k. \<lparr>url = u, keyword = Some (lower e k), ioc = None, context' = take 500 t\<rparr>)
       (filter (\<lambda>k. lower e k = lower e kw) kws)"
  by (induction kws) (auto simp: keyword_records_def)

text \<open>
  Claim C1, as the code has it. The comparison of the code is \<open>kw.lower() in
  text.lower()\<close>. When the lower-case form of the keyword \<open>kw\<close> occurs in the lower-case
  form of the page text, the records the matcher emits for it are as many as the entries
  of the keyword list whose lower-case form is that of \<open>kw\<close>: exactly one when the list
  holds the keyword once, however often it occurs in the text. Each of them has the page
  URL, a null \<open>ioc\<close> and the first 500 characters of the original-case text as context.
\<close>

theorem keyword_one_record_per_entry:
  assumes "py_in (lower e kw) (lower e t)"
  shows "length (filter (\<lambda>r. keyword r = Some (lower e kw)) (match_page e u t kws iocs [])) =
           length (filter (\<lambda>k. lower e k = lower e kw) kws)
       \<and> (\<forall>r\<in>set (match_page e u t kws iocs []).
            keyword r = Some (lower e kw) \<longrightarrow>
              url r = u \<and> ioc r = None \<and> context' r = take 500 t)"
proof
  show "length (filter (\<lambda>r. keyword r = Some (lower e kw)) (match_page e u t kws iocs [])) =
          length (filter (\<lambda>k. lower e k = lower e kw) kws)"
    using assms
    by (simp add: match_page_eq filter_keyword_ioc_records filter_keyword_keyword_records)
  show "\<forall>r\<in>set (match_page e u t kws iocs []).
          keyword r = Some (lower e kw) \<longrightarrow> url r = u \<and> ioc r = None \<and> context' r = take 500 t"
    by (auto simp: match_page_eq keyword_records_def ioc_records_def)
qed

text \<open>The example of the specification: one keyword, one record.\<close>

theorem keyword_one_record_per_entry_witness:
  "py_in (lower \<lparr>requests_get = \<lambda>n c. Inr \<lparr>status_code = 200, content = lit ''page''\<rparr>, get_text = \<lambda>s. s,
        lower = map (\<lambda>c. if 65 \<le> c \<and> c \<le> 90 then c + 32 else c), writable = \<lambda>p. True\<rparr> (lit ''Malware''))
      (lower \<lparr>requests_get = \<lambda>n c. Inr \<lparr>status_code = 200, content = lit ''page''\<rparr>, get_text = \<lambda>s. s,
        lower = map (\<lambda>c. if 65 \<le> c \<and> c \<le> 90 then c + 32 else c), writable = \<lambda>p. True\<rparr> (lit ''This site discusses Malware campaigns.''))
   \<and> length (filter (\<lambda>r. keyword r = Some (lower \<lparr>requests_get = \<lambda>n c. Inr \<lparr>status_code = 200, content = lit ''page''\<rparr>, get_text = \<lambda>s. s,
        lower = map (\<lambda>c. if 65 \<le> c \<and> c \<le> 90 then c + 32 else c), writable = \<lambda>p. True\<rparr> (lit ''Malware'')))
        (match_page \<lparr>requests_get = \<lambda>n c. Inr \<lparr>status_code = 200, content = lit ''page''\<rparr>, get_text = \<lambda>s. s,
        lower = map (\<lambda>c. if 65 \<le> c \<and> c \<le> 90 then c + 32 else c), writable = \<lambda>p. True\<rparr>
           (lit ''http://ex.test'') (lit ''This site discusses Malware campaigns.'')
           [lit ''Malware''] [] [])) = 1"
proof
  let ?e = "\<lparr>requests_get = \<lambda>n c. Inr \<lparr>status_code = 200, content = lit ''page''\<rparr>, get_text = \<lambda>s. s,
        lower = map (\<lambda>c. if 65 \<le> c \<and> c \<le> 90 then c + 32 else c), writable = \<lambda>p. True\<rparr>"
  show h: "py_in (lower ?e (lit ''Malware'')) (lower ?e (lit ''This site discusses Malware campaigns.''))"
    by code_simp
  have "length (filter (\<lambda>r. keyword r = Some (lower ?e (lit ''Malware'')))
        (match_page ?e (lit ''http://ex.test'') (lit ''This site discusses Malware campaigns.'')
           [lit ''Malware''] [] [])) =
        length (filter (\<lambda>k. lower ?e k = lower ?e (lit ''Malware'')) [lit ''Malware''])"
    using keyword_one_record_per_entry [OF h] by (rule conjunct1)
  also have "\<dots> = 1" by simp
  finally show "length (filter (\<lambda>r. keyword r = Some (lower ?e (lit ''Malware'')))
        (match_page ?e (lit ''http://ex.test'') (lit ''This site discusses Malware campaigns.'')
           [lit ''Malware''] [] [])) = 1" .
qed

text \<open>
  Claim C1 as stated fails in two ways. A keyword list that holds a keyword twice
  (\<open>-k malware malware\<close>) gives two records for it on a page: the loop of line 85 runs
  once for each entry and nothing removes duplicates. And a text that contains the
  keyword need not contain it under the comparison of the code: the keyword capital sigma
  (U+03A3, 931) occurs in the text capital alpha, capital sigma (913, 931), but
  \<open>str.lower\<close> gives small sigma (963) for the keyword and small alpha, final small
  sigma (945, 962) for the text, so line 87 finds nothing and no record is emitted. In
  the second example \<open>lower\<close> is \<open>str.lower\<close> on the two strings it is applied to.
\<close>

theorem keyword_records_counterexample:
  "match_page \<lparr>requests_get = \<lambda>n c. Inr \<lparr>status_code = 200, content = lit ''page''\<rparr>, get_text = \<lambda>s. s,
        lower = map (\<lambda>c. if 65 \<le> c \<and> c \<le> 90 then c + 32 else c), writable = \<lambda>p. True\<rparr>
     (lit ''http://ex.test'') (lit ''malware'') [lit ''malware'', lit ''malware''] [] [] =
     [\<lparr>url = lit ''http://ex.test'', keyword = Some (lit ''malware''), ioc = None,
        context' = lit ''malware''\<rparr>,
      \<lparr>url = lit ''http://ex.test'', keyword = Some (lit ''malware''), ioc = None,
        context' = lit ''malware''\<rparr>]
   \<and> py_in [931] [913, 931]
   \<and> match_page
       \<lparr>requests_get = \<lambda>n c. Inr \<lparr>status_code = 200, content = lit ''page''\<rparr>, get_text = \<lambda>s. s,
        lower = (\<lambda>s. if s = [913, 931] then [945, 962] else if s = [931] then [963] else s),
        writable = \<lambda>p. True\<rparr>
       (lit ''http://ex.test'') [913, 931] [[931]] [] [] = []"
  by code_simp

lemma ioc_of_keyword_records: "r \<in> set (keyword_records e u t kws) \<Longrightarrow> ioc r = None"
  by (auto simp: keyword_records_def)

lemma ioc_records_hit:
  "(\<exists>r\<in>set (ioc_records u t iocs). ioc r = Some i) \<longleftrightarrow> (i \<in> set iocs \<and> py_in i t)"
  by (force simp: ioc_records_def)

lemma ioc_records_fields:
  "r \<in> set (ioc_records u t iocs) \<Longrightarrow> keyword r = None \<and> url r = u \<and> context' r = take 500 t"
  by (auto simp: ioc_records_def)

text \<open>
  Claim C2. The matcher emits a record for the IOC \<open>i\<close> exactly when \<open>i\<close> is in the
  IOC list and occurs verbatim in the text; such a record has the IOC set and a null
  keyword; the IOC \<open>ABC123\<close> gives no record on the text \<open>abc123\<close>.
\<close>

theorem ioc_match_case_sensitive:
  "((\<exists>r\<in>set (match_page e u t kws iocs []). ioc r = Some i) \<longleftrightarrow>
      (i \<in> set iocs \<and> (\<exists>p q. t = p @ i @ q)))
   \<and> (\<forall>r\<in>set (match_page e u t kws iocs []).
        ioc r = Some i \<longrightarrow> keyword r = None \<and> url r = u \<and> context' r = take 500 t)
   \<and> filter (\<lambda>r. ioc r \<noteq> None) (match_page e u (lit ''abc123'') kws [lit ''ABC123''] []) = []"
proof (intro conjI)
  have "(\<exists>r\<in>set (match_page e u t kws iocs []). ioc r = Some i) \<longleftrightarrow>
          (\<exists>r\<in>set (ioc_records u t iocs). ioc r = Some i)"
    using ioc_of_keyword_records [of _ e u t kws] by (auto simp: match_page_eq)
  then show "(\<exists>r\<in>set (match_page e u t kws iocs []). ioc r = Some i) \<longleftrightarrow>
      (i \<in> set iocs \<and> (\<exists>p q. t = p @ i @ q))"
    by (simp only: ioc_records_hit py_in_iff)
  show "\<forall>r\<in>set (match_page e u t kws iocs []).
        ioc r = Some i \<longrightarrow> keyword r = None \<and> url r = u \<and> context' r = take 500 t"
    using ioc_of_keyword_records [of _ e u t kws] ioc_records_fields [of _ u t iocs]
    by (auto simp: match_page_eq)
  have "\<not> py_in (lit ''ABC123'') (lit ''abc123'')" by code_simp
  then have "ioc_records u (lit ''abc123'') [lit ''ABC123''] = []"
    by (simp add: ioc_records_def)
  moreover have "filter (\<lambda>r. ioc r \<noteq> None) (keyword_records e u (lit ''abc123'') kws) = []"
    by (simp add: keyword_records_def filter_map comp_def)
  ultimately show "filter (\<lambda>r. ioc r \<noteq> None)
      (match_page e u (lit ''abc123'') kws [lit ''ABC123''] []) = []"
    by (simp add: match_page_eq)
qed

text \<open>An IOC that occurs verbatim is reported, with a null keyword.\<close>

theorem ioc_match_case_sensitive_witness:
  "\<exists>r\<in>set (match_page \<lparr>requests_get = \<lambda>n c. Inr \<lparr>status_code = 200, content = lit ''page''\<rparr>, get_text = \<lambda>s. s,
        lower = map (\<lambda>c. if 65 \<le> c \<and> c \<le> 90 then c + 32 else c), writable = \<lambda>p. True\<rparr>
       (lit ''http://ex.test'') (lit ''hash ABC123 seen'') [] [lit ''ABC123''] []).
      ioc r = Some (lit ''ABC123'') \<and> keyword r = None"
proof -
  let ?e = "\<lparr>requests_get = \<lambda>n c. Inr \<lparr>status_code = 200, content = lit ''page''\<rparr>, get_text = \<lambda>s. s,
        lower = map (\<lambda>c. if 65 \<le> c \<and> c \<le> 90 then c + 32 else c), writable = \<lambda>p. True\<rparr>"
  have "lit ''hash ABC123 seen'' = lit ''hash '' @ lit ''ABC123'' @ lit '' seen''"
    by code_simp
  then have h: "lit ''ABC123'' \<in> set [lit ''ABC123'']
      \<and> (\<exists>p q. lit ''hash ABC123 seen'' = p @ lit ''ABC123'' @ q)"
    by (simp only: list.set_intros simp_thms) blast
  note T = ioc_match_case_sensitive [of ?e "lit ''http://ex.test''" "lit ''hash ABC123 seen''" "[]"
        "[lit ''ABC123'']" "lit ''ABC123''"]
  from T h obtain r where
    r: "r \<in> set (match_page ?e (lit ''http://ex.test'') (lit ''hash ABC123 seen'') []
         [lit ''ABC123''] [])"
       "ioc r = Some (lit ''ABC123'')"
    by blast
  from T r have "keyword r = None" by blast
  with r show ?thesis by blast
qed




section \<open>The requests of a run: claim C3\<close>

lemma scrape_pages_first:
  "\<exists>xs. gets (snd (scrape_pages e u kws iocs (p # ps) (res, w))) = gets w @ page_url u p # xs"
proof (cases rule: fetch_cases [of e "length (gets w)" "page_url u p"])
  case 1
  obtain m where "gets (snd (scrape_pages e u kws iocs ps
      (res, w\<lparr>gets := gets w @ [page_url u p],
              log := log w @ [Scraping_URL (page_url u p), Error_fetching_URL (page_url u p)]\<rparr>))) =
      (gets w @ [page_url u p]) @ map (page_url u) (take m ps)"
    using scrape_pages_gets [of ps e u kws iocs res
        "w\<lparr>gets := gets w @ [page_url u p],
           log := log w @ [Scraping_URL (page_url u p), Error_fetching_URL (page_url u p)]\<rparr>"]
    by auto
  then show ?thesis
    using 1 by (simp add: scrape_pages_request_error)
next
  case 2
  then show ?thesis
    by (simp add: scrape_pages_other_error)
next
  case (3 r)
  obtain m where "gets (snd (scrape_pages e u kws iocs ps
      (match_page e (page_url u p) (get_text e (content r)) kws iocs res,
       w\<lparr>log := log w @ [Scraping_URL (page_url u p)], gets := gets w @ [page_url u p]\<rparr>))) =
      (gets w @ [page_url u p]) @ map (page_url u) (take m ps)"
    using scrape_pages_gets [of ps e u kws iocs
        "match_page e (page_url u p) (get_text e (content r)) kws iocs res"
        "w\<lparr>log := log w @ [Scraping_URL (page_url u p)], gets := gets w @ [page_url u p]\<rparr>"]
    by auto
  then show ?thesis
    using 3 by (simp add: scrape_pages_fetched)
qed

lemma scrape_url_gets:
  "\<exists>m\<le>length [1..N]. gets (snd (scrape_url e u kws iocs N w)) =
       gets w @ map (page_url u) (take m [1..N])"
  unfolding scrape_url_def by (rule scrape_pages_gets)

lemma scrape_url_gets_prefix: "prefix (gets w) (gets (snd (scrape_url e u kws iocs N w)))"
  using scrape_url_gets [of N e u kws iocs w] by auto

lemma scrape_url_first:
  assumes "1 \<le> N"
  shows "\<exists>xs. gets (snd (scrape_url e u kws iocs N w)) = gets w @ u # xs"
proof -
  have "[1..N] = 1 # [2..N]"
    using assms by (simp add: upto_rec1)
  moreover have "page_url u 1 = u"
    by (simp add: page_url_def)
  ultimately show ?thesis
    using scrape_pages_first [of e u kws iocs 1 "[2..N]" "[]" w]
    by (simp add: scrape_url_def)
qed

lemma scrape_targets_Cons:
  "scrape_targets e kws iocs N (u # us) (acc, w) =
     scrape_targets e kws iocs N us
       (acc @ fst (scrape_url e u kws iocs N w), snd (scrape_url e u kws iocs N w))"
  by (simp add: case_prod_beta)

lemma scrape_targets_gets_prefix:
  "prefix (gets w) (gets (snd (scrape_targets e kws iocs N us (acc, w))))"
proof (induction us arbitrary: acc w)
  case Nil
  show ?case by simp
next
  case (Cons u us)
  have "prefix (gets (snd (scrape_url e u kws iocs N w)))
          (gets (snd (scrape_targets e kws iocs N (u # us) (acc, w))))"
    unfolding scrape_targets_Cons by (rule Cons.IH)
  with scrape_url_gets_prefix [of w e u kws iocs N] show ?case
    by (rule prefix_order.trans)
qed

lemma scrape_targets_all_attempted:
  assumes "1 \<le> N" and "t \<in> set us"
  shows "t \<in> set (gets (snd (scrape_targets e kws iocs N us (acc, w))))"
  using assms(2)
proof (induction us arbitrary: acc w)
  case Nil
  then show ?case by simp
next
  case (Cons u us)
  show ?case
  proof (cases "t = u")
    case True
    obtain xs where "gets (snd (scrape_url e u kws iocs N w)) = gets w @ u # xs"
      using scrape_url_first [OF assms(1)] by blast
    then have "u \<in> set (gets (snd (scrape_url e u kws iocs N w)))"
      by simp
    moreover have "prefix (gets (snd (scrape_url e u kws iocs N w)))
          (gets (snd (scrape_targets e kws iocs N (u # us) (acc, w))))"
      unfolding scrape_targets_Cons by (rule scrape_targets_gets_prefix)
    ultimately show ?thesis
      using True set_mono_prefix by blast
  next
    case False
    with Cons.prems have "t \<in> set us" by simp
    then show ?thesis
      unfolding scrape_targets_Cons by (rule Cons.IH)
  qed
qed

lemma upto_nth_from_1: "j < nat N \<Longrightarrow> [1..N] ! j = 1 + int j"
  by (simp add: nth_upto)

text \<open>
  Claim C3, as the code has it. For a page count \<open>N \<ge> 1\<close>, and when no page of the
  target raises an exception other than a \<open>RequestException\<close>, the paginator issues the
  requests for the pages \<open>1, 2, \<dots>, N\<close> of the target, in this order and no other:
  \<open>N\<close> requests, page 1 at the base URL, page \<open>k > 1\<close> at the base URL followed by
  \<open>&page=k\<close> when the base URL contains a question mark and by \<open>?page=k\<close> otherwise.
\<close>

theorem paginator_issues_n_fetches:
  assumes "1 \<le> N"
    and "\<forall>j<nat N. fetch e (length (gets w) + j) (page_url u (1 + int j)) \<noteq> Inl OtherException"
  shows "gets (snd (scrape_url e u kws iocs N w)) = gets w @ map (page_url u) [1..N]
       \<and> int (length (map (page_url u) [1..N])) = N
       \<and> page_url u 1 = u
       \<and> (\<forall>k>1. page_url u k =
            (if 63 \<in> set u then u @ (lit ''&page='') @ str_int k
             else u @ (lit ''?page='') @ str_int k))"
proof (intro conjI)
  have "fetch e (length (gets w) + j) (page_url u ([1..N] ! j)) \<noteq> Inl OtherException"
    if "j < length [1..N]" for j
    using that assms(2) by (simp add: upto_nth_from_1)
  then show "gets (snd (scrape_url e u kws iocs N w)) = gets w @ map (page_url u) [1..N]"
    unfolding scrape_url_def by (rule scrape_pages_gets_all)
  show "int (length (map (page_url u) [1..N])) = N"
    using assms(1) by simp
  show "page_url u 1 = u"
    by (simp add: page_url_def)
  show "\<forall>k>1. page_url u k =
            (if 63 \<in> set u then u @ (lit ''&page='') @ str_int k
             else u @ (lit ''?page='') @ str_int k)"
    by (simp add: page_url_def)
qed

text \<open>The example of the specification: three pages of a URL with a query string.\<close>

theorem paginator_issues_n_fetches_witness:
  "gets (snd (scrape_url
      \<lparr>requests_get = \<lambda>n c. Inr \<lparr>status_code = 200, content = lit ''page''\<rparr>,
       get_text = \<lambda>s. s,
       lower = map (\<lambda>c. if 65 \<le> c \<and> c \<le> 90 then c + 32 else c), writable = \<lambda>p. True\<rparr>
      (lit ''http://ex.test?id=1'') [] [] 3
      \<lparr>files = \<lambda>p. NoFile, gets = [], log = []\<rparr>)) =
   [lit ''http://ex.test?id=1'', lit ''http://ex.test?id=1&page=2'', lit ''http://ex.test?id=1&page=3'']"
proof -
  have h1: "(1::int) \<le> 3" by simp
  have h2: "\<forall>j<nat 3. fetch \<lparr>requests_get = \<lambda>n c. Inr \<lparr>status_code = 200, content = lit ''page''\<rparr>,
       get_text = \<lambda>s. s,
       lower = map (\<lambda>c. if 65 \<le> c \<and> c \<le> 90 then c + 32 else c), writable = \<lambda>p. True\<rparr>
       (length (gets \<lparr>files = \<lambda>p. NoFile, gets = [], log = []\<rparr>) + j)
       (page_url (lit ''http://ex.test?id=1'') (1 + int j)) \<noteq> Inl OtherException"
    by (simp add: fetch_def raise_for_status_def)
  have urls: "map (page_url (lit ''http://ex.test?id=1'')) [1..3] =
    [lit ''http://ex.test?id=1'', lit ''http://ex.test?id=1&page=2'', lit ''http://ex.test?id=1&page=3'']"
    by code_simp
  from paginator_issues_n_fetches [OF h1 h2, of "[]" "[]"]
  have "gets (snd (scrape_url
      \<lparr>requests_get = \<lambda>n c. Inr \<lparr>status_code = 200, content = lit ''page''\<rparr>,
       get_text = \<lambda>s. s,
       lower = map (\<lambda>c. if 65 \<le> c \<and> c \<le> 90 then c + 32 else c), writable = \<lambda>p. True\<rparr>
      (lit ''http://ex.test?id=1'') [] [] 3
      \<lparr>files = \<lambda>p. NoFile, gets = [], log = []\<rparr>)) =
      gets \<lparr>files = \<lambda>p. NoFile, gets = [], log = []\<rparr> @ map (page_url (lit ''http://ex.test?id=1'')) [1..3]"
    by (rule conjunct1)
  then show ?thesis
    by (simp only: urls world.simps append_Nil)
qed

text \<open>
  Claim C3 as stated fails when a page raises an exception that is not a
  \<open>RequestException\<close>: the inner handler (line 77) does not catch it, the outer one
  (line 104) does, outside the loop, so the remaining pages of the target are not
  requested. Here two pages are asked for and one request is issued.
\<close>

theorem paginator_abandons_target_counterexample:
  "gets (snd (scrape_url
      \<lparr>requests_get = \<lambda>n c. Inl OtherException, get_text = \<lambda>s. s,
       lower = map (\<lambda>c. if 65 \<le> c \<and> c \<le> 90 then c + 32 else c), writable = \<lambda>p. True\<rparr>
      (lit ''http://ex.test'') [] [] 2
      \<lparr>files = \<lambda>p. NoFile, gets = [], log = []\<rparr>)) = [lit ''http://ex.test'']"
  by code_simp

section \<open>Failed fetches: claim C4\<close>

lemma fetch_request_exception:
  "requests_get e n c = Inl RequestException \<Longrightarrow> fetch e n c = Inl RequestException"
  by (simp add: fetch_def)

lemma fetch_bad_status:
  "requests_get e n c = Inr r \<Longrightarrow> 400 \<le> status_code r \<Longrightarrow> status_code r < 600 \<Longrightarrow>
   fetch e n c = Inl RequestException"
  by (simp add: fetch_def raise_for_status_def)

lemma scrape_pages_next_attempted:
  assumes "fetch e (length (gets w)) (page_url u k) = Inl RequestException"
  shows "prefix (gets w @ [page_url u k, page_url u k'])
           (gets (snd (scrape_pages e u kws iocs (k # k' # ps') (res, w))))"
proof -
  obtain xs where "gets (snd (scrape_pages e u kws iocs (k' # ps')
      (res, w\<lparr>gets := gets w @ [page_url u k],
              log := log w @ [Scraping_URL (page_url u k), Error_fetching_URL (page_url u k)]\<rparr>))) =
      (gets w @ [page_url u k]) @ page_url u k' # xs"
    using scrape_pages_first [of e u kws iocs k' ps' res
        "w\<lparr>gets := gets w @ [page_url u k],
           log := log w @ [Scraping_URL (page_url u k), Error_fetching_URL (page_url u k)]\<rparr>"]
    by auto
  then have "gets (snd (scrape_pages e u kws iocs (k # k' # ps') (res, w))) =
      (gets w @ [page_url u k, page_url u k']) @ xs"
    using assms by (simp add: scrape_pages_request_error)
  then show ?thesis
    by (simp only: prefixI)
qed

text \<open>
  Claim C4. A network error and a 4xx or 5xx status both make the fetch fail with a
  \<open>RequestException\<close>. When the fetch of page \<open>k\<close> fails so, the loop goes on with the
  remaining pages and the results it had (the page adds no record), and the request for
  the next page is the next request issued. Whatever fails, every target URL of the run
  is requested (for a page count of at least 1): no failure aborts the run.
\<close>

theorem failed_fetch_does_not_stop_run:
  "(requests_get e n c = Inl RequestException \<longrightarrow> fetch e n c = Inl RequestException)
   \<and> (\<forall>r. requests_get e n c = Inr r \<and> 400 \<le> status_code r \<and> status_code r < 600 \<longrightarrow>
         fetch e n c = Inl RequestException)
   \<and> (fetch e (length (gets w)) (page_url u k) = Inl RequestException \<longrightarrow>
        scrape_pages e u kws iocs (k # ps) (res, w) =
          scrape_pages e u kws iocs ps
            (res, w\<lparr>gets := gets w @ [page_url u k],
                    log := log w @ [Scraping_URL (page_url u k), Error_fetching_URL (page_url u k)]\<rparr>)
        \<and> (\<forall>k' ps'. ps = k' # ps' \<longrightarrow>
              prefix (gets w @ [page_url u k, page_url u k'])
                (gets (snd (scrape_pages e u kws iocs (k # ps) (res, w))))))
   \<and> (1 \<le> N \<longrightarrow>
        (\<forall>t\<in>set us. t \<in> set (gets (snd (scrape_targets e kws iocs N us (acc, w))))))"
proof (intro conjI impI allI ballI)
  show "fetch e n c = Inl RequestException" if "requests_get e n c = Inl RequestException"
    using that by (rule fetch_request_exception)
  show "fetch e n c = Inl RequestException"
    if "requests_get e n c = Inr r \<and> 400 \<le> status_code r \<and> status_code r < 600" for r
    using that fetch_bad_status by blast
  show "scrape_pages e u kws iocs (k # ps) (res, w) =
          scrape_pages e u kws iocs ps
            (res, w\<lparr>gets := gets w @ [page_url u k],
                    log := log w @ [Scraping_URL (page_url u k), Error_fetching_URL (page_url u k)]\<rparr>)"
    if "fetch e (length (gets w)) (page_url u k) = Inl RequestException"
    using that by (rule scrape_pages_request_error)
  show "prefix (gets w @ [page_url u k, page_url u k'])
                (gets (snd (scrape_pages e u kws iocs (k # ps) (res, w))))"
    if "fetch e (length (gets w)) (page_url u k) = Inl RequestException" and "ps = k' # ps'"
    for k' ps'
    using that scrape_pages_next_attempted by blast
  show "t \<in> set (gets (snd (scrape_targets e kws iocs N us (acc, w))))"
    if "1 \<le> N" and "t \<in> set us" for t
    using that by (rule scrape_targets_all_attempted)
qed

text \<open>Page 1 answers 404: page 2 is requested all the same.\<close>

theorem failed_fetch_does_not_stop_run_witness:
  "fetch \<lparr>requests_get = \<lambda>n c. Inr \<lparr>status_code = (if n = 0 then 404 else 200),
                                       content = lit ''malware''\<rparr>,
          get_text = \<lambda>s. s,
       lower = map (\<lambda>c. if 65 \<le> c \<and> c \<le> 90 then c + 32 else c), writable = \<lambda>p. True\<rparr> 0 (lit ''http://ex.test'') = Inl RequestException
   \<and> prefix [lit ''http://ex.test'', lit ''http://ex.test?page=2'']
       (gets (snd (scrape_pages
          \<lparr>requests_get = \<lambda>n c. Inr \<lparr>status_code = (if n = 0 then 404 else 200),
                                       content = lit ''malware''\<rparr>,
           get_text = \<lambda>s. s,
       lower = map (\<lambda>c. if 65 \<le> c \<and> c \<le> 90 then c + 32 else c), writable = \<lambda>p. True\<rparr>
          (lit ''http://ex.test'') [lit ''malware''] [] [1, 2]
          ([], \<lparr>files = \<lambda>p. NoFile, gets = [], log = []\<rparr>))))"
proof -
  let ?e = "\<lparr>requests_get = \<lambda>n c. Inr \<lparr>status_code = (if n = 0 then 404 else 200),
                                       content = lit ''malware''\<rparr>,
          get_text = \<lambda>s. s,
       lower = map (\<lambda>c. if 65 \<le> c \<and> c \<le> 90 then c + 32 else c), writable = \<lambda>p. True\<rparr>"
  let ?w = "\<lparr>files = \<lambda>p. NoFile, gets = [], log = []\<rparr>"
  have p1: "page_url (lit ''http://ex.test'') 1 = lit ''http://ex.test''"
    by (simp add: page_url_def)
  have p2: "page_url (lit ''http://ex.test'') 2 = lit ''http://ex.test?page=2''"
    by code_simp
  have f: "fetch ?e (length (gets ?w)) (page_url (lit ''http://ex.test'') 1) = Inl RequestException"
    by (simp add: fetch_def raise_for_status_def)
  from failed_fetch_does_not_stop_run [of ?e 0 "lit ''http://ex.test''" ?w "lit ''http://ex.test''" 1
      "[lit ''malware'']" "[]" "[2]" "[]" 1 "[]" "[]"] f
  have "prefix (gets ?w @ [page_url (lit ''http://ex.test'') 1, page_url (lit ''http://ex.test'') 2])
          (gets (snd (scrape_pages ?e (lit ''http://ex.test'') [lit ''malware''] [] [1, 2] ([], ?w))))"
    by blast
  then have "prefix [lit ''http://ex.test'', lit ''http://ex.test?page=2'']
          (gets (snd (scrape_pages ?e (lit ''http://ex.test'') [lit ''malware''] [] [1, 2] ([], ?w))))"
    by (simp only: p1 p2 world.simps append_Nil)
  moreover have "fetch ?e 0 (lit ''http://ex.test'') = Inl RequestException"
    by (simp add: fetch_def raise_for_status_def)
  ultimately show ?thesis by (intro conjI)
qed

section \<open>The result set of a run: claims C5, C8 and C10\<close>

lemma upt_split: "i \<le> j \<Longrightarrow> j \<le> k \<Longrightarrow> [i..<k] = [i..<j] @ [j..<k]"
  by (metis le_add_diff_inverse upt_add_eq_append)

lemma scrape_url_results:
  "fst (scrape_url e u kws iocs N w) =
     concat (map (attempt_records e kws iocs (gets (snd (scrape_url e u kws iocs N w))))
               [length (gets w)..<length (gets (snd (scrape_url e u kws iocs N w)))])"
  using scrape_pages_results [of e u kws iocs "[1..N]" "[]" w]
  by (simp add: scrape_url_def)

lemma scrape_targets_results:
  "fst (scrape_targets e kws iocs N us (acc, w)) =
     acc @ concat (map (attempt_records e kws iocs (gets (snd (scrape_targets e kws iocs N us (acc, w)))))
                     [length (gets w)..<length (gets (snd (scrape_targets e kws iocs N us (acc, w))))])"
proof (induction us arbitrary: acc w)
  case Nil
  show ?case by simp
next
  case (Cons u us)
  define r where "r = fst (scrape_url e u kws iocs N w)"
  define w1 where "w1 = snd (scrape_url e u kws iocs N w)"
  define fin where "fin = scrape_targets e kws iocs N us (acc @ r, w1)"
  define G where "G = gets (snd fin)"
  have eq: "scrape_targets e kws iocs N (u # us) (acc, w) = fin"
    unfolding fin_def r_def w1_def by (rule scrape_targets_Cons)
  have p1: "prefix (gets w) (gets w1)"
    unfolding w1_def by (rule scrape_url_gets_prefix)
  have p2: "prefix (gets w1) G"
    unfolding G_def fin_def by (rule scrape_targets_gets_prefix)
  obtain ys where G: "G = gets w1 @ ys"
    using p2 by (auto simp: prefix_def)
  have l1: "length (gets w) \<le> length (gets w1)"
    using p1 by (rule prefix_length_le)
  have l2: "length (gets w1) \<le> length G"
    using p2 by (rule prefix_length_le)
  have same: "map (attempt_records e kws iocs G) [length (gets w)..<length (gets w1)] =
      map (attempt_records e kws iocs (gets w1)) [length (gets w)..<length (gets w1)]"
    by (rule map_cong [OF refl]) (simp add: G attempt_records_append)
  have ih: "fst fin = (acc @ r) @ concat (map (attempt_records e kws iocs G)
      [length (gets w1)..<length G])"
    unfolding G_def fin_def by (rule Cons.IH)
  have req: "r = concat (map (attempt_records e kws iocs (gets w1))
      [length (gets w)..<length (gets w1)])"
    unfolding r_def w1_def by (rule scrape_url_results)
  have "fst fin = acc @ concat (map (attempt_records e kws iocs G)
      ([length (gets w)..<length (gets w1)] @ [length (gets w1)..<length G]))"
    by (simp add: ih same) (simp add: req)
  then have "fst fin = acc @ concat (map (attempt_records e kws iocs G) [length (gets w)..<length G])"
    by (simp only: upt_split [OF l1 l2])
  then show ?case
    unfolding eq G_def .
qed


lemma attempt_records_origin:
  assumes "m \<in> set (attempt_records e kws iocs gs i)"
  shows "url m = gs ! i \<and> (\<exists>r. fetch e i (gs ! i) = Inr r)"
proof (cases "fetch e i (gs ! i)")
  case (Inl x)
  with assms show ?thesis by (simp add: attempt_records_def)
next
  case (Inr r)
  with assms have "m \<in> set (keyword_records e (gs ! i) (get_text e (content r)) kws)
      \<or> m \<in> set (ioc_records (gs ! i) (get_text e (content r)) iocs)"
    by (simp add: attempt_records_def match_page_eq)
  then have "url m = gs ! i"
    by (auto simp: keyword_records_def ioc_records_def)
  with Inr show ?thesis by simp
qed

lemma fetch_succeeded:
  "fetch e n c = Inr r \<Longrightarrow>
   requests_get e n c = Inr r \<and> (status_code r < 400 \<or> 600 \<le> status_code r)"
  by (auto simp: fetch_def raise_for_status_def split: sum.splits if_splits)

lemma main_iocs_gets: "gets (snd (main_iocs a w)) = gets w"
  by (simp add: main_iocs_def read_iocs_from_file_def split: option.splits file_state.splits)

lemma all_results_eq:
  "all_results e a w =
     scrape_targets e (main_keywords a) (fst (main_iocs a w)) (max_pages a) (urls a)
       ([], snd (main_iocs a w))"
  by (simp add: all_results_def case_prod_beta)

text \<open>
  Claim C5. Every record of the result set of a run has the URL of a request that the run
  issued (request number \<open>i\<close>, not one from before the run) and whose fetch succeeded,
  with a response whose status is not a 4xx or 5xx one: no record comes from a failed
  fetch.
\<close>

theorem records_come_from_successful_fetches:
  "\<forall>m\<in>set (fst (all_results e a w)).
     \<exists>i r. length (gets w) \<le> i \<and> i < length (gets (snd (all_results e a w)))
       \<and> gets (snd (all_results e a w)) ! i = url m \<and> fetch e i (url m) = Inr r
       \<and> requests_get e i (url m) = Inr r \<and> (status_code r < 400 \<or> 600 \<le> status_code r)"
proof
  fix m
  let ?G = "gets (snd (all_results e a w))"
  assume "m \<in> set (fst (all_results e a w))"
  then have "m \<in> set (concat (map (attempt_records e (main_keywords a) (fst (main_iocs a w)) ?G)
      [length (gets w)..<length ?G]))"
    using scrape_targets_results [of e "main_keywords a" "fst (main_iocs a w)" "max_pages a"
        "urls a" "[]" "snd (main_iocs a w)"]
    by (simp add: all_results_eq main_iocs_gets)
  then obtain i where i: "length (gets w) \<le> i" "i < length ?G"
      "m \<in> set (attempt_records e (main_keywords a) (fst (main_iocs a w)) ?G i)"
    by auto
  from attempt_records_origin [OF i(3)] obtain r where r: "url m = ?G ! i" "fetch e i (?G ! i) = Inr r"
    by blast
  from fetch_succeeded [OF r(2)]
  have "requests_get e i (?G ! i) = Inr r \<and> (status_code r < 400 \<or> 600 \<le> status_code r)" .
  with i(1,2) r show "\<exists>i r. length (gets w) \<le> i \<and> i < length ?G \<and> ?G ! i = url m
      \<and> fetch e i (url m) = Inr r
      \<and> requests_get e i (url m) = Inr r \<and> (status_code r < 400 \<or> 600 \<le> status_code r)"
    by auto
qed

text \<open>The example of the specification: the record has the URL of request 0, which succeeded.\<close>

theorem records_come_from_successful_fetches_witness:
  "\<lparr>url = lit ''http://ex.test'', keyword = Some (lit ''malware''), ioc = None,
     context' = lit ''This site discusses Malware campaigns.''\<rparr>
     \<in> set (fst (all_results
         \<lparr>requests_get = \<lambda>n c. Inr \<lparr>status_code = 200,
              content = lit ''This site discusses Malware campaigns.''\<rparr>,
          get_text = \<lambda>s. s,
       lower = map (\<lambda>c. if 65 \<le> c \<and> c \<le> 90 then c + 32 else c), writable = \<lambda>p. True\<rparr>
         \<lparr>keywords' = Some [lit ''malware''], ioc_file = None, urls = [lit ''http://ex.test''],
          output' = lit ''output.csv'', max_pages = 1\<rparr>
         \<lparr>files = \<lambda>p. NoFile, gets = [], log = []\<rparr>))
   \<and> (\<exists>i r. i < length (gets (snd (all_results
         \<lparr>requests_get = \<lambda>n c. Inr \<lparr>status_code = 200,
              content = lit ''This site discusses Malware campaigns.''\<rparr>,
          get_text = \<lambda>s. s,
       lower = map (\<lambda>c. if 65 \<le> c \<and> c \<le> 90 then c + 32 else c), writable = \<lambda>p. True\<rparr>
         \<lparr>keywords' = Some [lit ''malware''], ioc_file = None, urls = [lit ''http://ex.test''],
          output' = lit ''output.csv'', max_pages = 1\<rparr>
         \<lparr>files = \<lambda>p. NoFile, gets = [], log = []\<rparr>)))
       \<and> fetch \<lparr>requests_get = \<lambda>n c. Inr \<lparr>status_code = 200,
              content = lit ''This site discusses Malware campaigns.''\<rparr>,
          get_text = \<lambda>s. s,
       lower = map (\<lambda>c. if 65 \<le> c \<and> c \<le> 90 then c + 32 else c), writable = \<lambda>p. True\<rparr> i (lit ''http://ex.test'') = Inr r)"
proof -
  let ?e = "\<lparr>requests_get = \<lambda>n c. Inr \<lparr>status_code = 200,
              content = lit ''This site discusses Malware campaigns.''\<rparr>,
          get_text = \<lambda>s. s,
       lower = map (\<lambda>c. if 65 \<le> c \<and> c \<le> 90 then c + 32 else c), writable = \<lambda>p. True\<rparr>"
  let ?a = "\<lparr>keywords' = Some [lit ''malware''], ioc_file = None, urls = [lit ''http://ex.test''],
          output' = lit ''output.csv'', max_pages = 1\<rparr>"
  let ?w = "\<lparr>files = \<lambda>p. NoFile, gets = [], log = []\<rparr>"
  let ?m = "\<lparr>url = lit ''http://ex.test'', keyword = Some (lit ''malware''), ioc = None,
     context' = lit ''This site discusses Malware campaigns.''\<rparr>"
  have m: "?m \<in> set (fst (all_results ?e ?a ?w))"
    by code_simp
  from records_come_from_successful_fetches [of ?e ?a ?w] m
  have "\<exists>i r. length (gets ?w) \<le> i \<and> i < length (gets (snd (all_results ?e ?a ?w)))
       \<and> gets (snd (all_results ?e ?a ?w)) ! i = url ?m \<and> fetch ?e i (url ?m) = Inr r
       \<and> requests_get ?e i (url ?m) = Inr r \<and> (status_code r < 400 \<or> 600 \<le> status_code r)"
    by (rule bspec)
  then have "\<exists>i r. i < length (gets (snd (all_results ?e ?a ?w))) \<and> fetch ?e i (lit ''http://ex.test'') = Inr r"
    by (simp only: match.simps) blast
  with m show ?thesis by (intro conjI)
qed









section \<open>The IOC loader: claim C6\<close>

lemma last_dropWhile: "dropWhile P xs \<noteq> [] \<Longrightarrow> last (dropWhile P xs) = last xs"
  by (metis last_appendR takeWhile_dropWhile_id)

lemma strip_ends:
  assumes "strip l \<noteq> []"
  shows "\<not> isspace (hd (strip l)) \<and> \<not> isspace (last (strip l))"
proof
  let ?d = "dropWhile isspace l"
  let ?b = "dropWhile isspace (rev ?d)"
  from assms have b: "?b \<noteq> []" by (simp add: strip_def)
  have d: "?d \<noteq> []"
  proof
    assume "?d = []"
    with b show False by simp
  qed
  have "hd (strip l) = last ?b" by (simp add: strip_def hd_rev)
  also have "\<dots> = last (rev ?d)" using b by (rule last_dropWhile)
  also have "\<dots> = hd ?d" by (simp add: last_rev)
  finally have "hd (strip l) = hd ?d" .
  with d show "\<not> isspace (hd (strip l))"
    by (simp add: hd_dropWhile)
  have "last (strip l) = hd ?b" by (simp add: strip_def last_rev)
  with b show "\<not> isspace (last (strip l))"
    by (simp add: hd_dropWhile)
qed

lemma read_iocs_text:
  "files w p = Text s \<Longrightarrow>
   read_iocs_from_file p w = (filter (\<lambda>l. l \<noteq> []) (map strip (readlines [] s)), w)"
  by (simp add: read_iocs_from_file_def filter_map comp_def)

text \<open>
  Claim C6. When the path holds a readable text, the loader returns the lines of the file
  with their white space trimmed and the empty ones left out, in file order, duplicates
  and all; none of them is empty or starts or ends with white space; nothing is logged.
  When the path does not exist, or reading fails, it returns the empty list and logs the
  condition. In every case it returns, and the run goes on to scrape the targets with what
  it returned.
\<close>

theorem ioc_loader_never_fatal:
  "(files w p = Text s \<longrightarrow>
      read_iocs_from_file p w = (filter (\<lambda>l. l \<noteq> []) (map strip (readlines [] s)), w)
      \<and> (\<forall>x\<in>set (fst (read_iocs_from_file p w)).
            x \<noteq> [] \<and> \<not> isspace (hd x) \<and> \<not> isspace (last x)))
   \<and> (files w p = NoFile \<longrightarrow>
        read_iocs_from_file p w = ([], w\<lparr>log := log w @ [IOC_file_not_found p]\<rparr>))
   \<and> (files w p = Unreadable \<longrightarrow>
        read_iocs_from_file p w = ([], w\<lparr>log := log w @ [Error_reading_IOC_file]\<rparr>))
   \<and> (ioc_file a = Some p \<and> p \<noteq> [] \<longrightarrow>
        all_results e a w =
          scrape_targets e (main_keywords a) (fst (read_iocs_from_file p w)) (max_pages a)
            (urls a) ([], snd (read_iocs_from_file p w)))"
proof (intro conjI impI)
  assume t: "files w p = Text s"
  then show "read_iocs_from_file p w = (filter (\<lambda>l. l \<noteq> []) (map strip (readlines [] s)), w)"
    by (rule read_iocs_text)
  show "\<forall>x\<in>set (fst (read_iocs_from_file p w)).
            x \<noteq> [] \<and> \<not> isspace (hd x) \<and> \<not> isspace (last x)"
    using strip_ends by (auto simp: read_iocs_text [OF t])
next
  show "read_iocs_from_file p w = ([], w\<lparr>log := log w @ [IOC_file_not_found p]\<rparr>)"
    if "files w p = NoFile"
    using that by (simp add: read_iocs_from_file_def)
  show "read_iocs_from_file p w = ([], w\<lparr>log := log w @ [Error_reading_IOC_file]\<rparr>)"
    if "files w p = Unreadable"
    using that by (simp add: read_iocs_from_file_def)
  show "all_results e a w =
          scrape_targets e (main_keywords a) (fst (read_iocs_from_file p w)) (max_pages a)
            (urls a) ([], snd (read_iocs_from_file p w))"
    if "ioc_file a = Some p \<and> p \<noteq> []"
    using that by (simp add: all_results_eq main_iocs_def)
qed

text \<open>A file with a blank line, padded lines and a duplicate; and a missing file.\<close>

theorem ioc_loader_never_fatal_witness:
  "fst (read_iocs_from_file (lit ''iocs.txt'')
      \<lparr>files = \<lambda>p. if p = lit ''iocs.txt''
                    then Text (lit '' evil.com \<newline>\<newline>10.0.0.1\<newline>evil.com'') else NoFile,
       gets = [], log = []\<rparr>) = [lit ''evil.com'', lit ''10.0.0.1'', lit ''evil.com'']
   \<and> read_iocs_from_file (lit ''missing.txt'')
      \<lparr>files = \<lambda>p. if p = lit ''iocs.txt''
                    then Text (lit '' evil.com \<newline>\<newline>10.0.0.1\<newline>evil.com'') else NoFile,
       gets = [], log = []\<rparr> =
      ([], \<lparr>files = \<lambda>p. if p = lit ''iocs.txt''
                    then Text (lit '' evil.com \<newline>\<newline>10.0.0.1\<newline>evil.com'') else NoFile,
       gets = [], log = [IOC_file_not_found (lit ''missing.txt'')]\<rparr>)"
proof
  let ?w = "\<lparr>files = \<lambda>p. if p = lit ''iocs.txt''
                    then Text (lit '' evil.com \<newline>\<newline>10.0.0.1\<newline>evil.com'') else NoFile,
       gets = [], log = []\<rparr>"
  have t: "files ?w (lit ''iocs.txt'') = Text (lit '' evil.com \<newline>\<newline>10.0.0.1\<newline>evil.com'')"
    by simp
  have n: "files ?w (lit ''missing.txt'') = NoFile"
    by (simp add: lit_def)
  have v: "filter (\<lambda>l. l \<noteq> []) (map strip (readlines [] (lit '' evil.com \<newline>\<newline>10.0.0.1\<newline>evil.com'')))
      = [lit ''evil.com'', lit ''10.0.0.1'', lit ''evil.com'']"
    by (simp add: lit_def strip_def isspace_def)
  from ioc_loader_never_fatal [of ?w "lit ''iocs.txt''" "lit '' evil.com \<newline>\<newline>10.0.0.1\<newline>evil.com''"] t
  have "read_iocs_from_file (lit ''iocs.txt'') ?w =
      (filter (\<lambda>l. l \<noteq> []) (map strip (readlines [] (lit '' evil.com \<newline>\<newline>10.0.0.1\<newline>evil.com''))), ?w)"
    by blast
  then show "fst (read_iocs_from_file (lit ''iocs.txt'') ?w) = [lit ''evil.com'', lit ''10.0.0.1'', lit ''evil.com'']"
    by (simp only: v fst_conv)
  from ioc_loader_never_fatal [of ?w "lit ''missing.txt''"] n
  have "read_iocs_from_file (lit ''missing.txt'') ?w =
      ([], ?w\<lparr>log := log ?w @ [IOC_file_not_found (lit ''missing.txt'')]\<rparr>)"
    by blast
  then show "read_iocs_from_file (lit ''missing.txt'') ?w =
      ([], \<lparr>files = \<lambda>p. if p = lit ''iocs.txt''
                    then Text (lit '' evil.com \<newline>\<newline>10.0.0.1\<newline>evil.com'') else NoFile,
       gets = [], log = [IOC_file_not_found (lit ''missing.txt'')]\<rparr>)"
    by simp
qed

section \<open>The result writer: claim C7\<close>

lemma add_keys_known: "set ks \<subseteq> set cols \<Longrightarrow> add_keys cols ks = cols"
  by (induction ks arbitrary: cols) auto

lemma keys_of_items: "map fst (items r) = [lit ''url'', lit ''keyword'', lit ''ioc'', lit ''context'']"
  by (simp add: items_def)

lemma column_names_distinct:
  "distinct [lit ''url'', lit ''keyword'', lit ''ioc'', lit ''context'']"
  by code_simp

lemma add_keys_first:
  "add_keys [] [lit ''url'', lit ''keyword'', lit ''ioc'', lit ''context''] =
     [lit ''url'', lit ''keyword'', lit ''ioc'', lit ''context'']"
  by code_simp

lemma foldl_add_keys_known:
  "\<forall>ks\<in>set kss. set ks \<subseteq> set cols \<Longrightarrow> foldl add_keys cols kss = cols"
  by (induction kss) (simp_all add: add_keys_known)

lemma columns_DataFrame:
  assumes "results \<noteq> []"
  shows "columns (DataFrame results) = [lit ''url'', lit ''keyword'', lit ''ioc'', lit ''context'']"
proof -
  obtain r rs where r: "results = r # rs"
    using assms by (cases results) auto
  have "foldl add_keys [] (map (\<lambda>r. map fst (items r)) results) =
      foldl add_keys (add_keys [] (map fst (items r))) (map (\<lambda>r. map fst (items r)) rs)"
    by (simp add: r)
  also have "add_keys [] (map fst (items r)) = [lit ''url'', lit ''keyword'', lit ''ioc'', lit ''context'']"
    unfolding keys_of_items by (rule add_keys_first)
  also have "foldl add_keys [lit ''url'', lit ''keyword'', lit ''ioc'', lit ''context'']
      (map (\<lambda>r. map fst (items r)) rs) = [lit ''url'', lit ''keyword'', lit ''ioc'', lit ''context'']"
    by (rule foldl_add_keys_known) (simp add: keys_of_items)
  finally show ?thesis
    by (simp add: DataFrame_def Let_def)
qed

lemma cells_of_items:
  "map (\<lambda>c. case map_of (items r) c of None \<Rightarrow> None | Some v \<Rightarrow> v)
     [lit ''url'', lit ''keyword'', lit ''ioc'', lit ''context''] =
   [Some (url r), keyword r, ioc r, Some (context' r)]"
  using column_names_distinct by (auto simp: items_def)

lemma data_DataFrame:
  assumes "results \<noteq> []"
  shows "data (DataFrame results) =
    map (\<lambda>r. [Some (url r), keyword r, ioc r, Some (context' r)]) results"
proof -
  have "data (DataFrame results) =
      map (\<lambda>r. map (\<lambda>c. case map_of (items r) c of None \<Rightarrow> None | Some v \<Rightarrow> v)
                  (columns (DataFrame results))) results"
    by (simp add: DataFrame_def Let_def)
  then show ?thesis
    unfolding columns_DataFrame [OF assms] cells_of_items .
qed

lemma writerow_header:
  "writerow [lit ''url'', lit ''keyword'', lit ''ioc'', lit ''context''] = lit ''url,keyword,ioc,context\<newline>''"
  by code_simp

text \<open>
  Claim C7, as the code has it. For a result set that is not empty the rows written are
  the header \<open>url,keyword,ioc,context\<close> and then one row of four cells for each record,
  the cell of an absent keyword or IOC being the empty string; the text of the file is the
  header line followed by the lines of the records, and it is what the output path holds
  when the path can be written.
\<close>

theorem csv_header_for_nonempty_results:
  assumes "results \<noteq> []"
  shows "csv_rows (DataFrame results) =
           [lit ''url'', lit ''keyword'', lit ''ioc'', lit ''context'']
           # map (\<lambda>r. [url r, na_rep (keyword r), na_rep (ioc r), context' r]) results
       \<and> to_csv (DataFrame results) =
           (lit ''url,keyword,ioc,context\<newline>'')
           @ concat (map (\<lambda>r. writerow [url r, na_rep (keyword r), na_rep (ioc r), context' r])
                       results)
       \<and> na_rep None = []
       \<and> (writable e output_file \<longrightarrow>
            files (save_results_to_csv e results output_file w) output_file =
              Text (to_csv (DataFrame results)))"
proof (intro conjI impI)
  show rows: "csv_rows (DataFrame results) =
           [lit ''url'', lit ''keyword'', lit ''ioc'', lit ''context'']
           # map (\<lambda>r. [url r, na_rep (keyword r), na_rep (ioc r), context' r]) results"
    using assms by (simp add: csv_rows_def columns_DataFrame data_DataFrame na_rep_def comp_def)
  show "to_csv (DataFrame results) =
           (lit ''url,keyword,ioc,context\<newline>'')
           @ concat (map (\<lambda>r. writerow [url r, na_rep (keyword r), na_rep (ioc r), context' r])
                       results)"
    unfolding to_csv_def rows by (simp add: writerow_header comp_def)
  show "na_rep None = []"
    by (simp add: na_rep_def)
  show "files (save_results_to_csv e results output_file w) output_file =
              Text (to_csv (DataFrame results))" if "writable e output_file"
    using that by (simp add: save_results_to_csv_def)
qed

text \<open>The example of the specification, written out as a file.\<close>

theorem csv_header_for_nonempty_results_witness:
  "to_csv (DataFrame [\<lparr>url = lit ''http://ex.test'', keyword = Some (lit ''malware''), ioc = None,
      context' = lit ''This site discusses Malware campaigns.''\<rparr>]) =
   (lit ''url,keyword,ioc,context\<newline>http://ex.test,malware,,This site discusses Malware campaigns.\<newline>'')"
proof -
  let ?r = "\<lparr>url = lit ''http://ex.test'', keyword = Some (lit ''malware''), ioc = None,
      context' = lit ''This site discusses Malware campaigns.''\<rparr>"
  have h: "[?r] \<noteq> []" by simp
  have row: "concat (map (\<lambda>r. writerow [url r, na_rep (keyword r), na_rep (ioc r), context' r]) [?r])
      = lit ''http://ex.test,malware,,This site discusses Malware campaigns.\<newline>''"
    by code_simp
  from csv_header_for_nonempty_results [OF h]
  have "to_csv (DataFrame [?r]) = lit ''url,keyword,ioc,context\<newline>''
      @ concat (map (\<lambda>r. writerow [url r, na_rep (keyword r), na_rep (ioc r), context' r]) [?r])"
    by blast
  then show ?thesis
    by (simp only: row) (simp add: lit_def)
qed

text \<open>
  Claim C7 as stated fails for the empty result set: \<open>DataFrame([])\<close> has no column,
  since the columns come from the keys of the records, so the file holds one empty line
  and no header.
\<close>

theorem csv_empty_results_counterexample:
  "to_csv (DataFrame []) = lit ''\<newline>''
   \<and> \<not> prefix (lit ''url,keyword,ioc,context'') (to_csv (DataFrame []))"
  by code_simp

end
